theory Spec2Isabelle
  imports Main "HOL-Library.Sublist"
begin

section \<open>The intermediate representation\<close>

text \<open>
  The pass of \<^verbatim>\<open>src/passes/DeadCode.cpp\<close> works on LightIR objects through pointers.
  A pointer to an instruction or to a basic block is modelled by a number, the identity
  of the object. The C++ classes are not part of the pass: their model follows the data
  model of the specification.
\<close>

type_synonym instr_id = nat
type_synonym bb_id = nat

text \<open>
  Modelled from the spec: the instruction kinds of \<^verbatim>\<open>Instruction.hpp\<close>. The seven kinds
  that the classifier asks for, and the pure value-producing kinds (arithmetic,
  comparisons, casts, address computation).
\<close>

datatype kind = Store | Ret | Call | Br | Phi | Alloca | Load | Arith | Cmp | Cast | Gep

text \<open>
  Modelled from the spec: an operand slot. \<open>InstrRef\<close> is the case in which
  \<^verbatim>\<open>dynamic_cast<Instruction *>\<close> succeeds.
\<close>

datatype val =
    InstrRef instr_id
  | ConstVal int
  | GlobalRef string
  | ArgRef nat
  | BlockRef bb_id
  | FuncRef string

text \<open>
  Modelled from the spec: the entities of its data model. An instruction has its
  identity, its kind and its operand list; a block has its identity and owns a sequence
  of instructions; a function has a name, owns a sequence of blocks and designates its
  entry block; a module owns its functions and its global variables.
\<close>

record instr =
  iid :: instr_id
  kind :: kind
  operands :: "val list"

record basic_block =
  bid :: bb_id
  instructions :: "instr list"

record func =
  fname :: string
  basic_blocks :: "basic_block list"
  entry_block :: bb_id

record global_variable =
  gname :: string

record module =
  get_functions :: "func list"
  get_global_variable :: "global_variable list"

text \<open>Modelled from the spec: the kind tests of \<^verbatim>\<open>Instruction.hpp\<close>.\<close>

definition is_store :: "instr \<Rightarrow> bool" where
  "is_store ins = (kind ins = Store)"

definition is_ret :: "instr \<Rightarrow> bool" where
  "is_ret ins = (kind ins = Ret)"

definition is_call :: "instr \<Rightarrow> bool" where
  "is_call ins = (kind ins = Call)"

definition is_br :: "instr \<Rightarrow> bool" where
  "is_br ins = (kind ins = Br)"

definition is_phi :: "instr \<Rightarrow> bool" where
  "is_phi ins = (kind ins = Phi)"

definition is_alloca :: "instr \<Rightarrow> bool" where
  "is_alloca ins = (kind ins = Alloca)"

definition is_load :: "instr \<Rightarrow> bool" where
  "is_load ins = (kind ins = Load)"

text \<open>Program order: block order, then the order inside each block.\<close>

definition func_instrs :: "func \<Rightarrow> instr list" where
  "func_instrs f = concat (map instructions (basic_blocks f))"

definition all_instrs :: "module \<Rightarrow> instr list" where
  "all_instrs m = concat (map func_instrs (get_functions m))"

text \<open>
  Modelled from the spec: following an instruction pointer. The pointer names the
  instruction of the module that has this identity; \<open>get_operands\<close> reads its operand list.
  A pointer that names no instruction of the module has no operand edge to follow (the IR
  excludes such pointers, section 7 of the specification).
\<close>

definition deref :: "module \<Rightarrow> instr_id \<Rightarrow> instr option" where
  "deref m p = find (\<lambda>i. iid i = p) (all_instrs m)"

definition get_operands :: "module \<Rightarrow> instr_id \<Rightarrow> val list" where
  "get_operands m p = (case deref m p of None \<Rightarrow> [] | Some i \<Rightarrow> operands i)"

text \<open>
  Modelled from the spec: the predecessor set of a block is derived, it holds the blocks
  of the function with a branch instruction that targets the block.
\<close>

definition get_pre_basic_blocks :: "func \<Rightarrow> basic_block \<Rightarrow> bb_id list" where
  "get_pre_basic_blocks f bb =
     map bid (filter (\<lambda>p. list_ex (\<lambda>i. is_br i \<and> BlockRef (bid bb) \<in> set (operands i))
                                  (instructions p))
                     (basic_blocks f))"

text \<open>
  Modelled from the spec: the use-list of a value holds the instructions that reference
  it as an operand; the IR keeps it up to date by itself.
\<close>

definition get_use_list :: "module \<Rightarrow> val \<Rightarrow> instr list" where
  "get_use_list m v = filter (\<lambda>i. v \<in> set (operands i)) (all_instrs m)"

text \<open>
  Modelled from the spec: \<^verbatim>\<open>bb->erase_from_parent(); delete bb\<close> takes the block, with
  the instructions it owns, out of the block list of its function.
\<close>

definition erase_from_parent :: "bb_id \<Rightarrow> func \<Rightarrow> func" where
  "erase_from_parent p f = f\<lparr>basic_blocks := filter (\<lambda>bb. bid bb \<noteq> p) (basic_blocks f)\<rparr>"

text \<open>
  Modelled from the spec: \<^verbatim>\<open>bb->erase_instr(ins)\<close> removes the instruction from the
  instruction sequence of the block, and \<^verbatim>\<open>ins->get_parent()\<close> is the block that owns
  the instruction.
\<close>

definition erase_instr :: "instr_id \<Rightarrow> basic_block \<Rightarrow> basic_block" where
  "erase_instr p bb = bb\<lparr>instructions := filter (\<lambda>i. iid i \<noteq> p) (instructions bb)\<rparr>"

definition owns :: "basic_block \<Rightarrow> instr_id \<Rightarrow> bool" where
  "owns bb p = list_ex (\<lambda>i. iid i = p) (instructions bb)"

definition erase_from_its_parent :: "instr_id \<Rightarrow> func \<Rightarrow> func" where
  "erase_from_its_parent p f =
     f\<lparr>basic_blocks := map (\<lambda>bb. if owns bb p then erase_instr p bb else bb) (basic_blocks f)\<rparr>"

section \<open>The pass\<close>

subsection \<open>\<^verbatim>\<open>DeadCode::is_critical\<close>\<close>

definition is_critical :: "instr \<Rightarrow> bool" where
  "is_critical ins =
     (if is_store ins then True
      else if is_ret ins then True
      else if is_call ins then True
      else if is_br ins then True
      else if is_phi ins then True
      else if is_alloca ins then True
      else if is_load ins then True
      else False)"

subsection \<open>\<^verbatim>\<open>DeadCode::clear_basic_blocks\<close>\<close>

text \<open>The first loop: it fills \<open>to_erase\<close> and sets \<open>changed\<close>.\<close>

definition unreachable_bb :: "func \<Rightarrow> basic_block \<Rightarrow> bool" where
  "unreachable_bb f bb = (get_pre_basic_blocks f bb = [] \<and> bid bb \<noteq> entry_block f)"

definition scan_basic_blocks :: "func \<Rightarrow> bb_id list \<times> bool" where
  "scan_basic_blocks f =
     fold (\<lambda>bb (to_erase, changed).
             if unreachable_bb f bb then (to_erase @ [bid bb], True) else (to_erase, changed))
          (basic_blocks f) ([], False)"

definition clear_basic_blocks :: "func \<Rightarrow> func \<times> bool" where
  "clear_basic_blocks f =
     (case scan_basic_blocks f of
        (to_erase, changed) \<Rightarrow> (fold erase_from_parent to_erase f, changed))"

subsection \<open>\<^verbatim>\<open>DeadCode::mark\<close>\<close>

text \<open>
  The state of the marker is the pair of \<open>marked\<close> (the instructions mapped to true) and
  \<open>work_list\<close>. \<open>mark_ins\<close> is \<^verbatim>\<open>mark(Instruction *)\<close>.
\<close>

type_synonym marker = "instr_id set \<times> instr_id list"

definition mark_ins :: "instr_id \<Rightarrow> marker \<Rightarrow> marker" where
  "mark_ins p s =
     (case s of (marked, work_list) \<Rightarrow>
        if p \<notin> marked then (insert p marked, work_list @ [p]) else (marked, work_list))"

fun mark_operand :: "val \<Rightarrow> marker \<Rightarrow> marker" where
  "mark_operand (InstrRef q) (marked, work_list) =
     (if q \<notin> marked then (insert q marked, work_list @ [q]) else (marked, work_list))"
| "mark_operand v s = s"

definition mark_critical :: "func \<Rightarrow> marker" where
  "mark_critical f =
     fold (\<lambda>ins s. if is_critical ins then mark_ins (iid ins) s else s) (func_instrs f) ({}, [])"

text \<open>The instruction identities that occur as operands in the module.\<close>

definition operand_refs :: "module \<Rightarrow> instr_id set" where
  "operand_refs m = {q. \<exists>i \<in> set (all_instrs m). InstrRef q \<in> set (operands i)}"

function propagate :: "module \<Rightarrow> marker \<Rightarrow> instr_id set" where
  "propagate m (marked, []) = marked"
| "propagate m (marked, p # work_list) =
     propagate m (fold mark_operand (get_operands m p) (marked, work_list))"
  by pat_completeness auto
termination
proof (relation "measure (\<lambda>(m, marked, work_list). card (operand_refs m - marked) + length work_list)")
  show "wf (measure (\<lambda>(m, marked, work_list). card (operand_refs m - marked) + length work_list))"
    by simp
next
  fix m :: module and marked :: "instr_id set" and p :: instr_id and work_list :: "instr_id list"
  have fin: "finite (operand_refs m)"
  proof -
    have "operand_refs m \<subseteq> (\<Union>i \<in> set (all_instrs m). (\<lambda>v. case v of InstrRef q \<Rightarrow> q | _ \<Rightarrow> 0) ` set (operands i))"
      by (force simp: operand_refs_def)
    then show ?thesis by (rule finite_subset) simp
  qed
  have keep: "set vs \<subseteq> InstrRef ` operand_refs m \<union> {v. \<forall>q. v \<noteq> InstrRef q} \<Longrightarrow>
      (case fold mark_operand vs (mk, wl) of
         (mk', wl') \<Rightarrow> card (operand_refs m - mk') + length wl') =
      card (operand_refs m - mk) + length wl" for vs mk wl
  proof (induction vs arbitrary: mk wl)
    case Nil
    then show ?case by simp
  next
    case (Cons v vs)
    show ?case
    proof (cases v)
      case (InstrRef q)
      with Cons.prems have q: "q \<in> operand_refs m" by auto
      show ?thesis
      proof (cases "q \<in> mk")
        case True
        with InstrRef Cons show ?thesis by simp
      next
        case False
        have "operand_refs m - insert q mk = (operand_refs m - mk) - {q}" by auto
        moreover have "q \<in> operand_refs m - mk" using q False by simp
        ultimately have "card (operand_refs m - insert q mk) + 1 = card (operand_refs m - mk)"
          using fin card.remove [of "operand_refs m - mk" q] by simp
        with InstrRef False Cons show ?thesis by simp
      qed
    qed (use Cons in auto)
  qed
  have ops: "set (get_operands m p) \<subseteq> InstrRef ` operand_refs m \<union> {v. \<forall>q. v \<noteq> InstrRef q}"
  proof
    fix v assume v: "v \<in> set (get_operands m p)"
    then obtain i where "deref m p = Some i" and vi: "v \<in> set (operands i)"
      by (cases "deref m p") (auto simp: get_operands_def)
    then have im: "i \<in> set (all_instrs m)"
      by (auto simp: deref_def find_Some_iff)
    show "v \<in> InstrRef ` operand_refs m \<union> {v. \<forall>q. v \<noteq> InstrRef q}"
    proof (cases v)
      case (InstrRef q)
      with vi im have "q \<in> operand_refs m"
        unfolding operand_refs_def by blast
      with InstrRef show ?thesis by simp
    qed simp_all
  qed
  show "((m, fold mark_operand (get_operands m p) (marked, work_list)), (m, marked, p # work_list))
        \<in> measure (\<lambda>(m, marked, work_list). card (operand_refs m - marked) + length work_list)"
    using keep [OF ops, of marked work_list]
    by (auto split: prod.splits)
qed

definition mark :: "module \<Rightarrow> func \<Rightarrow> instr_id set" where
  "mark m f = propagate m (mark_critical f)"

text \<open>
  The contract of section 4.2 of the specification, to compare \<open>mark\<close> with: a set that
  holds every critical instruction of the function and, with an instruction, the
  instructions among its operands; and the instructions that operand edges reach from a
  critical instruction of the function.
\<close>

definition operand_closed :: "module \<Rightarrow> func \<Rightarrow> instr_id set \<Rightarrow> bool" where
  "operand_closed m f L =
     ((\<forall>ins \<in> set (func_instrs f). is_critical ins \<longrightarrow> iid ins \<in> L) \<and>
      (\<forall>p \<in> L. \<forall>q. InstrRef q \<in> set (get_operands m p) \<longrightarrow> q \<in> L))"

inductive live :: "module \<Rightarrow> func \<Rightarrow> instr_id \<Rightarrow> bool" for m :: module and f :: func where
  critical: "ins \<in> set (func_instrs f) \<Longrightarrow> is_critical ins \<Longrightarrow> live m f (iid ins)"
| operand: "live m f p \<Longrightarrow> InstrRef q \<in> set (get_operands m p) \<Longrightarrow> live m f q"

subsection \<open>\<^verbatim>\<open>DeadCode::sweep\<close>\<close>

text \<open>
  The first loop fills the set \<open>wait_del\<close>, listed here in the order of insertion; the
  second erases each of its members from the block that owns it and counts it in
  \<open>ins_count\<close>. The result is the function, the counter and \<open>changed\<close>.
\<close>

definition collect_wait_del :: "instr_id set \<Rightarrow> func \<Rightarrow> instr_id list" where
  "collect_wait_del marked f =
     fold (\<lambda>ins wait_del.
             if iid ins \<notin> marked \<and> \<not> is_critical ins then List.insert (iid ins) wait_del
             else wait_del)
          (func_instrs f) []"

definition sweep :: "instr_id set \<Rightarrow> func \<Rightarrow> nat \<Rightarrow> func \<times> nat \<times> bool" where
  "sweep marked f ins_count =
     fold (\<lambda>p (f', ins_count', changed). (erase_from_its_parent p f', ins_count' + 1, True))
          (collect_wait_del marked f) (f, ins_count, False)"

subsection \<open>\<^verbatim>\<open>DeadCode::sweep_globally\<close>\<close>

definition find_unused_funcs :: "module \<Rightarrow> func list" where
  "find_unused_funcs m =
     fold (\<lambda>f_r unused_funcs.
             if length (get_use_list m (FuncRef (fname f_r))) = 0 \<and> fname f_r \<noteq> ''main''
             then unused_funcs @ [f_r] else unused_funcs)
          (get_functions m) []"

definition find_unused_globals :: "module \<Rightarrow> global_variable list" where
  "find_unused_globals m =
     fold (\<lambda>glob_var_r unused_globals.
             if length (get_use_list m (GlobalRef (gname glob_var_r))) = 0
             then unused_globals @ [glob_var_r] else unused_globals)
          (get_global_variable m) []"

text \<open>
  The result is the module and the diagnostic, when one is written: the number of
  unused functions and the number of unused global variables.
\<close>

definition sweep_globally :: "module \<Rightarrow> module \<times> (nat \<times> nat) option" where
  "sweep_globally m =
     (let unused_funcs = find_unused_funcs m;
          unused_globals = find_unused_globals m
      in (m, if unused_funcs \<noteq> [] \<or> unused_globals \<noteq> []
             then Some (length unused_funcs, length unused_globals) else None))"

subsection \<open>\<^verbatim>\<open>DeadCode::run\<close>\<close>

text \<open>
  The state of the driver is the module \<open>m_\<close> and the counter \<open>ins_count\<close>.
  \<open>run_func k\<close> is the body of the inner loop for the function at position \<open>k\<close>;
  \<open>run_pass\<close> is the body of the outer loop: it clears \<open>changed\<close> and visits every
  function.
\<close>

type_synonym pass_state = "module \<times> nat"

definition set_function :: "nat \<Rightarrow> func \<Rightarrow> module \<Rightarrow> module" where
  "set_function k f m = m\<lparr>get_functions := (get_functions m)[k := f]\<rparr>"

definition run_func :: "nat \<Rightarrow> pass_state \<times> bool \<Rightarrow> pass_state \<times> bool" where
  "run_func k st =
     (case st of ((m, ins_count), changed) \<Rightarrow>
        (case clear_basic_blocks (get_functions m ! k) of (func1, changed1) \<Rightarrow>
           (let m1 = set_function k func1 m in
              (case sweep (mark m1 func1) func1 ins_count of (func2, ins_count', changed2) \<Rightarrow>
                 ((set_function k func2 m1, ins_count'), (changed \<or> changed1) \<or> changed2)))))"

definition run_pass :: "pass_state \<Rightarrow> pass_state \<times> bool" where
  "run_pass s = fold run_func [0..<length (get_functions (fst s))] (s, False)"

partial_function (option) do_while :: "('s \<Rightarrow> 's \<times> bool) \<Rightarrow> 's \<Rightarrow> 's option" where
  "do_while body s =
     (case body s of (s', changed) \<Rightarrow> if changed then do_while body s' else Some s')"

declare do_while.simps [code]

text \<open>The same loop, stopped with \<open>None\<close> when it asks for more than \<open>n\<close> iterations.\<close>

fun do_while_fuel :: "nat \<Rightarrow> ('s \<Rightarrow> 's \<times> bool) \<Rightarrow> 's \<Rightarrow> 's option" where
  "do_while_fuel 0 body s = None"
| "do_while_fuel (Suc n) body s =
     (case body s of (s', changed) \<Rightarrow> if changed then do_while_fuel n body s' else Some s')"

text \<open>
  \<open>run\<close> starts from the module and the counter of the pass object. Its result is the
  module, the number that the final message reports, and the diagnostic of
  \<open>sweep_globally\<close>. The analysis \<^verbatim>\<open>func_info->run()\<close> is outside the pass and
  does not change the module.
\<close>

record run_result =
  result_module :: module
  erased :: nat
  unused_report :: "(nat \<times> nat) option"

definition run :: "module \<Rightarrow> nat \<Rightarrow> run_result option" where
  "run m ins_count =
     (case do_while run_pass (m, ins_count) of
        None \<Rightarrow> None
      | Some (m', ins_count') \<Rightarrow>
          (case sweep_globally m' of (m'', report) \<Rightarrow>
             Some \<lparr>result_module = m'', erased = ins_count', unused_report = report\<rparr>))"

subsection \<open>Measures and bookkeeping for the statements\<close>

definition instr_count :: "func \<Rightarrow> nat" where
  "instr_count f = length (func_instrs f)"

definition block_count :: "func \<Rightarrow> nat" where
  "block_count f = length (basic_blocks f)"

definition func_size :: "func \<Rightarrow> nat" where
  "func_size f = instr_count f + block_count f"

text \<open>The number of instructions plus the number of blocks of the module.\<close>

definition module_size :: "module \<Rightarrow> nat" where
  "module_size m = sum_list (map func_size (get_functions m))"

text \<open>Pointer identity: no two instructions of the module share an identity.\<close>

definition unique_instrs :: "module \<Rightarrow> bool" where
  "unique_instrs m = distinct (map iid (all_instrs m))"

text \<open>The function with, in every block, only the instructions that satisfy \<open>P\<close>.\<close>

definition keep_instrs :: "(instr \<Rightarrow> bool) \<Rightarrow> func \<Rightarrow> func" where
  "keep_instrs P f =
     f\<lparr>basic_blocks := map (\<lambda>bb. bb\<lparr>instructions := filter P (instructions bb)\<rparr>) (basic_blocks f)\<rparr>"

text \<open>The instructions among the operands of an instruction.\<close>

definition succs :: "module \<Rightarrow> instr_id \<Rightarrow> instr_id set" where
  "succs m p = {q. InstrRef q \<in> set (get_operands m p)}"

text \<open>What one visit of \<open>run_func\<close> makes of the function at position \<open>k\<close>: the function after \<open>clear_basic_blocks\<close>, the set \<open>wait_del\<close> of the sweep that follows, and the function after that sweep.\<close>

definition pruned_func :: "func \<Rightarrow> func" where
  "pruned_func f = fst (clear_basic_blocks f)"

definition visit_wait_del :: "module \<Rightarrow> nat \<Rightarrow> instr_id list" where
  "visit_wait_del m k =
     (let func1 = pruned_func (get_functions m ! k)
      in collect_wait_del (mark (set_function k func1 m) func1) func1)"

definition visited_func :: "module \<Rightarrow> nat \<Rightarrow> func" where
  "visited_func m k =
     keep_instrs (\<lambda>i. iid i \<notin> set (visit_wait_del m k)) (pruned_func (get_functions m ! k))"

text \<open>The second module has the functions of the first, position by position, none with more instructions or more blocks, and the same global variables.\<close>

definition shrinks :: "module \<Rightarrow> module \<Rightarrow> bool" where
  "shrinks m m' =
     (length (get_functions m') = length (get_functions m) \<and>
      get_global_variable m' = get_global_variable m \<and>
      (\<forall>k < length (get_functions m).
         instr_count (get_functions m' ! k) \<le> instr_count (get_functions m ! k) \<and>
         block_count (get_functions m' ! k) \<le> block_count (get_functions m ! k)))"









subsection \<open>A module to run the pass on\<close>

text \<open>
  \<open>main\<close> has the entry block 0, which computes two values for its return and two
  that nothing uses; block 1, which no branch targets, with a store and a branch to
  block 2; and block 2, which only block 1 targets. \<open>helper\<close> is never called, and the
  global \<open>g\<close> is used by the store of block 1 only.
\<close>

definition scenario_main :: func where
  "scenario_main =
     \<lparr>fname = ''main'',
      basic_blocks =
        [\<lparr>bid = 0, instructions =
            [\<lparr>iid = 1, kind = Arith, operands = [ConstVal 1, ConstVal 2]\<rparr>,
             \<lparr>iid = 2, kind = Arith, operands = [InstrRef 1, InstrRef 1]\<rparr>,
             \<lparr>iid = 3, kind = Arith, operands = [ConstVal 3, ConstVal 4]\<rparr>,
             \<lparr>iid = 4, kind = Arith, operands = [InstrRef 3, ConstVal 1]\<rparr>,
             \<lparr>iid = 5, kind = Ret, operands = [InstrRef 2]\<rparr>]\<rparr>,
         \<lparr>bid = 1, instructions =
            [\<lparr>iid = 6, kind = Store, operands = [ConstVal 0, GlobalRef ''g'']\<rparr>,
             \<lparr>iid = 7, kind = Br, operands = [BlockRef 2]\<rparr>]\<rparr>,
         \<lparr>bid = 2, instructions =
            [\<lparr>iid = 8, kind = Arith, operands = [ConstVal 5, ConstVal 6]\<rparr>,
             \<lparr>iid = 9, kind = Ret, operands = [ConstVal 0]\<rparr>]\<rparr>],
      entry_block = 0\<rparr>"

definition scenario_helper :: func where
  "scenario_helper =
     \<lparr>fname = ''helper'',
      basic_blocks = [\<lparr>bid = 3, instructions = [\<lparr>iid = 10, kind = Ret, operands = []\<rparr>]\<rparr>],
      entry_block = 3\<rparr>"

definition scenario_module :: module where
  "scenario_module =
     \<lparr>get_functions = [scenario_main, scenario_helper],
      get_global_variable = [\<lparr>gname = ''g''\<rparr>]\<rparr>"

definition scenario_result :: module where
  "scenario_result =
     \<lparr>get_functions =
        [\<lparr>fname = ''main'',
          basic_blocks =
            [\<lparr>bid = 0, instructions =
                [\<lparr>iid = 1, kind = Arith, operands = [ConstVal 1, ConstVal 2]\<rparr>,
                 \<lparr>iid = 2, kind = Arith, operands = [InstrRef 1, InstrRef 1]\<rparr>,
                 \<lparr>iid = 5, kind = Ret, operands = [InstrRef 2]\<rparr>]\<rparr>],
          entry_block = 0\<rparr>,
         scenario_helper],
      get_global_variable = [\<lparr>gname = ''g''\<rparr>]\<rparr>"

section \<open>Properties\<close>

subsection \<open>The classifier\<close>

lemmas kind_tests =
  is_store_def is_ret_def is_call_def is_br_def is_phi_def is_alloca_def is_load_def

lemma is_critical_kind: "is_critical ins = (kind ins \<in> {Store, Ret, Call, Br, Phi, Alloca, Load})"
  by (simp add: is_critical_def kind_tests)

text \<open>
  Claim C8. \<open>is_critical\<close> is a function of the kind of the instruction alone: it is true
  exactly for store, return, call, branch, phi, alloca and load, and false for every
  other kind.
\<close>

theorem is_critical_spec:
  "is_critical ins = (kind ins \<in> {Store, Ret, Call, Br, Phi, Alloca, Load}) \<and>
   is_critical ins = (kind ins \<notin> {Arith, Cmp, Cast, Gep})"
  by (cases "kind ins") (simp_all add: is_critical_def kind_tests)

theorem is_critical_spec_witness:
  "is_critical \<lparr>iid = 6, kind = Store, operands = [ConstVal 0, GlobalRef ''g'']\<rparr> \<and>
   \<not> is_critical \<lparr>iid = 3, kind = Arith, operands = [ConstVal 3, ConstVal 4]\<rparr>"
  using is_critical_spec [of "\<lparr>iid = 6, kind = Store, operands = [ConstVal 0, GlobalRef ''g'']\<rparr>"]
    is_critical_spec [of "\<lparr>iid = 3, kind = Arith, operands = [ConstVal 3, ConstVal 4]\<rparr>"]
  by simp

subsection \<open>The block pruner\<close>

lemma unreachable_bb_bid: "bid a = bid b \<Longrightarrow> unreachable_bb f a = unreachable_bb f b"
  by (simp add: unreachable_bb_def get_pre_basic_blocks_def)

lemma scan_fold:
  "fold (\<lambda>bb (to_erase, changed).
           if P bb then (to_erase @ [bid bb], True) else (to_erase, changed)) bs (acc, c) =
   (acc @ map bid (filter P bs), c \<or> (\<exists>bb \<in> set bs. P bb))"
  by (induction bs arbitrary: acc c) auto

lemma scan_basic_blocks_eq:
  "scan_basic_blocks f =
     (map bid (filter (unreachable_bb f) (basic_blocks f)),
      \<exists>bb \<in> set (basic_blocks f). unreachable_bb f bb)"
  by (simp add: scan_basic_blocks_def scan_fold)

lemma fold_erase_from_parent:
  "fold erase_from_parent ps f =
     f\<lparr>basic_blocks := filter (\<lambda>bb. bid bb \<notin> set ps) (basic_blocks f)\<rparr>"
proof (induction ps arbitrary: f)
  case Nil
  then show ?case by simp
next
  case (Cons p ps)
  have "fold erase_from_parent (p # ps) f = fold erase_from_parent ps (erase_from_parent p f)"
    by simp
  also have "\<dots> = (erase_from_parent p f)\<lparr>basic_blocks :=
      filter (\<lambda>bb. bid bb \<notin> set ps) (basic_blocks (erase_from_parent p f))\<rparr>"
    by (rule Cons.IH)
  also have "\<dots> = f\<lparr>basic_blocks := filter (\<lambda>bb. bid bb \<notin> set (p # ps)) (basic_blocks f)\<rparr>"
    by (simp add: erase_from_parent_def conj_commute)
  finally show ?case .
qed

lemma clear_basic_blocks_eq:
  "clear_basic_blocks f =
     (f\<lparr>basic_blocks := filter (\<lambda>bb. \<not> unreachable_bb f bb) (basic_blocks f)\<rparr>,
      \<exists>bb \<in> set (basic_blocks f). unreachable_bb f bb)"
proof -
  have "filter (\<lambda>bb. bid bb \<notin> bid ` {x \<in> set (basic_blocks f). unreachable_bb f x}) (basic_blocks f) =
        filter (\<lambda>bb. \<not> unreachable_bb f bb) (basic_blocks f)"
    by (rule filter_cong) (auto dest: unreachable_bb_bid [of _ _ f])
  then show ?thesis
    by (simp add: clear_basic_blocks_def scan_basic_blocks_eq fold_erase_from_parent)
qed

lemma length_filter_less_iff: "(length (filter P xs) < length xs) = (\<exists>x \<in> set xs. \<not> P x)"
proof
  assume "length (filter P xs) < length xs"
  then show "\<exists>x \<in> set xs. \<not> P x"
    by (metis filter_True less_irrefl)
next
  assume "\<exists>x \<in> set xs. \<not> P x"
  then show "length (filter P xs) < length xs"
    by (auto intro: length_filter_less)
qed

text \<open>
  Claim C7. \<open>clear_basic_blocks\<close> deletes exactly the blocks that are not the entry block
  and have an empty predecessor set, the predecessor sets being those of the function as
  it is when the call starts; a block that is the entry block stays; the result is true
  exactly when a block was removed, that is when the function has fewer blocks than
  before. In the example, block 1 goes and block 2 stays, although block 1 was its only
  predecessor.
\<close>

theorem clear_basic_blocks_spec:
  "basic_blocks (fst (clear_basic_blocks f)) =
     filter (\<lambda>bb. \<not> (get_pre_basic_blocks f bb = [] \<and> bid bb \<noteq> entry_block f)) (basic_blocks f) \<and>
   fname (fst (clear_basic_blocks f)) = fname f \<and>
   entry_block (fst (clear_basic_blocks f)) = entry_block f \<and>
   (\<forall>bb \<in> set (basic_blocks f).
      bid bb = entry_block f \<longrightarrow> bb \<in> set (basic_blocks (fst (clear_basic_blocks f)))) \<and>
   snd (clear_basic_blocks f) =
     (\<exists>bb \<in> set (basic_blocks f). get_pre_basic_blocks f bb = [] \<and> bid bb \<noteq> entry_block f) \<and>
   snd (clear_basic_blocks f) = (block_count (fst (clear_basic_blocks f)) < block_count f)"
  by (simp add: clear_basic_blocks_eq block_count_def length_filter_less_iff)
    (simp add: unreachable_bb_def)

theorem clear_basic_blocks_spec_witness:
  "map bid (basic_blocks (fst (clear_basic_blocks scenario_main))) = [0, 2] \<and>
   snd (clear_basic_blocks scenario_main) \<and>
   block_count (fst (clear_basic_blocks scenario_main)) < block_count scenario_main"
  using clear_basic_blocks_spec [of scenario_main]
  by (simp add: scenario_main_def get_pre_basic_blocks_def is_br_def block_count_def)

subsection \<open>The module-level scan\<close>




lemma run_Some:
  "run m n = Some r \<Longrightarrow>
   do_while run_pass (m, n) = Some (result_module r, erased r) \<and>
   unused_report r = snd (sweep_globally (result_module r))"
  by (auto simp: run_def sweep_globally_def Let_def split: option.splits prod.splits)


lemma scenario_run:
  "run scenario_module 0 =
     Some \<lparr>result_module = scenario_result, erased = 3, unused_report = Some (1, 1)\<rparr>"
  by code_simp


subsection \<open>The sweeper\<close>

lemma collect_fold:
  "set (fold (\<lambda>ins wait_del. if P ins then List.insert (iid ins) wait_del else wait_del) xs acc) =
     set acc \<union> iid ` {x \<in> set xs. P x} \<and>
   (distinct acc \<longrightarrow>
     distinct (fold (\<lambda>ins wait_del. if P ins then List.insert (iid ins) wait_del else wait_del) xs acc))"
  by (induction xs arbitrary: acc) auto

lemma set_collect_wait_del:
  "set (collect_wait_del marked f) =
     iid ` {x \<in> set (func_instrs f). iid x \<notin> marked \<and> \<not> is_critical x}"
  using collect_fold [of "\<lambda>x. iid x \<notin> marked \<and> \<not> is_critical x" "func_instrs f" "[]"]
  by (simp add: collect_wait_del_def)

lemma distinct_collect_wait_del: "distinct (collect_wait_del marked f)"
  using collect_fold [of "\<lambda>x. iid x \<notin> marked \<and> \<not> is_critical x" "func_instrs f" "[]"]
  by (simp add: collect_wait_del_def)

lemma erase_from_its_parent_eq:
  "erase_from_its_parent p f = f\<lparr>basic_blocks := map (erase_instr p) (basic_blocks f)\<rparr>"
proof -
  have "(if owns bb p then erase_instr p bb else bb) = erase_instr p bb" for bb
  proof (cases "owns bb p")
    case False
    then have "filter (\<lambda>i. iid i \<noteq> p) (instructions bb) = instructions bb"
      by (auto simp: owns_def list_ex_iff)
    with False show ?thesis by (simp add: erase_instr_def)
  qed simp
  then show ?thesis by (simp add: erase_from_its_parent_def)
qed

lemma keep_instrs_True: "keep_instrs (\<lambda>i. True) f = f"
  by (simp add: keep_instrs_def)

lemma keep_instrs_erase:
  "erase_from_its_parent p (keep_instrs P f) = keep_instrs (\<lambda>i. P i \<and> iid i \<noteq> p) f"
  by (simp add: erase_from_its_parent_eq keep_instrs_def erase_instr_def comp_def conj_commute)

lemma sweep_fold:
  "fold (\<lambda>p (f', ins_count', changed). (erase_from_its_parent p f', ins_count' + 1, True)) ps
        (keep_instrs P f, n, c) =
   (keep_instrs (\<lambda>i. P i \<and> iid i \<notin> set ps) f, n + length ps, c \<or> ps \<noteq> [])"
proof (induction ps arbitrary: P n c)
  case Nil
  then show ?case by simp
next
  case (Cons p ps)
  have "(\<lambda>i. (P i \<and> iid i \<noteq> p) \<and> iid i \<notin> set ps) = (\<lambda>i. P i \<and> iid i \<notin> set (p # ps))"
    by auto
  with Cons.IH [of "\<lambda>i. P i \<and> iid i \<noteq> p" "n + 1" True] show ?case
    by (simp add: keep_instrs_erase)
qed

text \<open>
  \<open>wait_del\<close> is an unordered set in the source. The second loop of \<open>sweep\<close> gives the
  same result for every order in which it may visit the members.
\<close>

lemma sweep_order_irrelevant:
  assumes "set ps = set qs" and "distinct ps" and "distinct qs"
  shows "fold (\<lambda>p (f', ins_count', changed). (erase_from_its_parent p f', ins_count' + 1, True)) ps
           (f, n :: nat, c) =
         fold (\<lambda>p (f', ins_count', changed). (erase_from_its_parent p f', ins_count' + 1, True)) qs
           (f, n, c)"
proof -
  from assms have "length ps = length qs"
    by (metis distinct_card)
  moreover from assms(1) have "(ps \<noteq> []) = (qs \<noteq> [])"
    by auto
  ultimately show ?thesis
    using sweep_fold [of ps "\<lambda>i. True" f n c] sweep_fold [of qs "\<lambda>i. True" f n c] assms(1)
    by (simp add: keep_instrs_True)
qed

lemma sweep_eq:
  "sweep marked f n =
     (keep_instrs (\<lambda>i. iid i \<notin> set (collect_wait_del marked f)) f,
      n + length (collect_wait_del marked f),
      collect_wait_del marked f \<noteq> [])"
  using sweep_fold [of "collect_wait_del marked f" "\<lambda>i. True" f n False]
  by (simp add: sweep_def keep_instrs_True)

lemma func_instrs_keep: "func_instrs (keep_instrs P f) = filter P (func_instrs f)"
  by (simp add: func_instrs_def keep_instrs_def filter_concat comp_def)

lemma keep_instrs_cong:
  "(\<And>i. i \<in> set (func_instrs f) \<Longrightarrow> P i = Q i) \<Longrightarrow> keep_instrs P f = keep_instrs Q f"
proof -
  assume eq: "\<And>i. i \<in> set (func_instrs f) \<Longrightarrow> P i = Q i"
  have "filter P (instructions bb) = filter Q (instructions bb)"
    if "bb \<in> set (basic_blocks f)" for bb
    using that by (intro filter_cong refl eq) (auto simp: func_instrs_def)
  then have "map (\<lambda>bb. bb\<lparr>instructions := filter P (instructions bb)\<rparr>) (basic_blocks f) =
             map (\<lambda>bb. bb\<lparr>instructions := filter Q (instructions bb)\<rparr>) (basic_blocks f)"
    by simp
  then show ?thesis by (simp add: keep_instrs_def)
qed

lemma unique_iid:
  "distinct (map iid xs) \<Longrightarrow> i \<in> set xs \<Longrightarrow> j \<in> set xs \<Longrightarrow> iid i = iid j \<Longrightarrow> i = j"
  by (auto simp: distinct_map dest: inj_onD)

lemma wait_del_member:
  assumes "distinct (map iid (func_instrs f))" and "i \<in> set (func_instrs f)"
  shows "(iid i \<in> set (collect_wait_del marked f)) = (iid i \<notin> marked \<and> \<not> is_critical i)"
  using assms by (auto simp: set_collect_wait_del dest: unique_iid)

lemma length_wait_del:
  assumes "distinct (map iid (func_instrs f))"
  shows "length (collect_wait_del marked f) =
         length (filter (\<lambda>i. iid i \<notin> marked \<and> \<not> is_critical i) (func_instrs f))"
proof -
  let ?xs = "filter (\<lambda>i. iid i \<notin> marked \<and> \<not> is_critical i) (func_instrs f)"
  have d: "distinct (map iid ?xs)"
    using assms by (simp add: distinct_map_filter)
  have "set (collect_wait_del marked f) = set (map iid ?xs)"
    by (auto simp: set_collect_wait_del)
  then have "card (set (collect_wait_del marked f)) = card (set (map iid ?xs))"
    by simp
  then show ?thesis
    using d distinct_collect_wait_del [of marked f]
    by (simp add: distinct_card del: set_map set_filter)
qed

lemma sweep_unique:
  assumes "distinct (map iid (func_instrs f))"
  shows "sweep marked f n =
     (keep_instrs (\<lambda>i. iid i \<in> marked \<or> is_critical i) f,
      n + length (filter (\<lambda>i. iid i \<notin> marked \<and> \<not> is_critical i) (func_instrs f)),
      \<exists>i \<in> set (func_instrs f). iid i \<notin> marked \<and> \<not> is_critical i)"
proof -
  have "keep_instrs (\<lambda>i. iid i \<notin> set (collect_wait_del marked f)) f =
        keep_instrs (\<lambda>i. iid i \<in> marked \<or> is_critical i) f"
    by (rule keep_instrs_cong) (simp add: wait_del_member [OF assms])
  moreover have "(collect_wait_del marked f \<noteq> []) =
        (\<exists>i \<in> set (func_instrs f). iid i \<notin> marked \<and> \<not> is_critical i)"
    using set_collect_wait_del [of marked f] by (auto simp flip: set_empty)
  ultimately show ?thesis
    by (simp add: sweep_eq length_wait_del [OF assms])
qed

text \<open>
  Claim C3. In a function whose instructions have distinct identities, \<open>sweep\<close> removes
  from every block exactly the instructions that are unmarked and not critical, keeps
  the others in place and in order, and returns true exactly when some instruction is
  unmarked and not critical, that is when the function has fewer instructions than
  before.
\<close>

theorem sweep_spec:
  assumes "distinct (map iid (func_instrs f))"
  shows "basic_blocks (fst (sweep marked f n)) =
           map (\<lambda>bb. bb\<lparr>instructions :=
                  filter (\<lambda>i. \<not> (iid i \<notin> marked \<and> \<not> is_critical i)) (instructions bb)\<rparr>)
               (basic_blocks f) \<and>
         fname (fst (sweep marked f n)) = fname f \<and>
         entry_block (fst (sweep marked f n)) = entry_block f \<and>
         snd (snd (sweep marked f n)) =
           (\<exists>i \<in> set (func_instrs f). iid i \<notin> marked \<and> \<not> is_critical i) \<and>
         snd (snd (sweep marked f n)) = (instr_count (fst (sweep marked f n)) < instr_count f)"
proof -
  let ?K = "keep_instrs (\<lambda>i. iid i \<in> marked \<or> is_critical i) f"
  have res: "fst (sweep marked f n) = ?K"
    by (simp add: sweep_unique [OF assms])
  have flag: "snd (snd (sweep marked f n)) =
      (\<exists>i \<in> set (func_instrs f). iid i \<notin> marked \<and> \<not> is_critical i)"
    by (simp add: sweep_unique [OF assms])
  have less: "(instr_count ?K < instr_count f) =
      (\<exists>i \<in> set (func_instrs f). iid i \<notin> marked \<and> \<not> is_critical i)"
    by (simp add: instr_count_def func_instrs_keep length_filter_less_iff)
  have "basic_blocks ?K =
      map (\<lambda>bb. bb\<lparr>instructions :=
             filter (\<lambda>i. \<not> (iid i \<notin> marked \<and> \<not> is_critical i)) (instructions bb)\<rparr>)
          (basic_blocks f)"
    by (simp add: keep_instrs_def)
  moreover have "fname ?K = fname f" and "entry_block ?K = entry_block f"
    by (simp_all add: keep_instrs_def)
  ultimately show ?thesis
    unfolding res flag less by simp
qed

lemma scenario_main_unique: "distinct (map iid (func_instrs scenario_main))"
  by code_simp

lemma scenario_mark: "mark scenario_module scenario_main = {1, 2, 5, 6, 7, 9}"
  by code_simp

theorem sweep_spec_witness:
  "distinct (map iid (func_instrs scenario_main)) \<and>
   map (\<lambda>bb. map iid (instructions bb))
     (basic_blocks (fst (sweep (mark scenario_module scenario_main) scenario_main 0))) =
     [[1, 2, 5], [6, 7], [9]] \<and>
   snd (snd (sweep (mark scenario_module scenario_main) scenario_main 0))"
  using sweep_spec [OF scenario_main_unique, of "mark scenario_module scenario_main" 0]
    scenario_main_unique
  by (simp add: scenario_mark)
    (simp add: scenario_main_def func_instrs_def is_critical_kind)

subsection \<open>The marker\<close>

lemma mark_operand_fold:
  "fold mark_operand vs (mk, wl) = (mk', wl') \<Longrightarrow>
   mk' = mk \<union> {q. InstrRef q \<in> set vs} \<and> set wl' = set wl \<union> ({q. InstrRef q \<in> set vs} - mk)"
proof (induction vs arbitrary: mk wl)
  case Nil
  then show ?case by simp
next
  case (Cons v vs)
  show ?case
  proof (cases v)
    case (InstrRef q)
    show ?thesis
    proof (cases "q \<in> mk")
      case True
      with InstrRef Cons.prems have "fold mark_operand vs (mk, wl) = (mk', wl')" by simp
      from Cons.IH [OF this] True InstrRef show ?thesis by auto
    next
      case False
      with InstrRef Cons.prems have "fold mark_operand vs (insert q mk, wl @ [q]) = (mk', wl')"
        by simp
      from Cons.IH [OF this] False InstrRef show ?thesis by auto
    qed
  next
    case (ConstVal c)
    with Cons.prems have "fold mark_operand vs (mk, wl) = (mk', wl')" by simp
    from Cons.IH [OF this] ConstVal show ?thesis by auto
  next
    case (GlobalRef g)
    with Cons.prems have "fold mark_operand vs (mk, wl) = (mk', wl')" by simp
    from Cons.IH [OF this] GlobalRef show ?thesis by auto
  next
    case (ArgRef a)
    with Cons.prems have "fold mark_operand vs (mk, wl) = (mk', wl')" by simp
    from Cons.IH [OF this] ArgRef show ?thesis by auto
  next
    case (BlockRef b)
    with Cons.prems have "fold mark_operand vs (mk, wl) = (mk', wl')" by simp
    from Cons.IH [OF this] BlockRef show ?thesis by auto
  next
    case (FuncRef g)
    with Cons.prems have "fold mark_operand vs (mk, wl) = (mk', wl')" by simp
    from Cons.IH [OF this] FuncRef show ?thesis by auto
  qed
qed

lemma mark_critical_fold:
  "fold (\<lambda>ins s. if is_critical ins then mark_ins (iid ins) s else s) xs (mk, wl) = (mk', wl') \<Longrightarrow>
   mk' = mk \<union> iid ` {x \<in> set xs. is_critical x} \<and>
   set wl' = set wl \<union> (iid ` {x \<in> set xs. is_critical x} - mk)"
proof (induction xs arbitrary: mk wl)
  case Nil
  then show ?case by simp
next
  case (Cons x xs)
  show ?case
  proof (cases "is_critical x \<and> iid x \<notin> mk")
    case True
    then have "(if is_critical x then mark_ins (iid x) (mk, wl) else (mk, wl)) =
        (insert (iid x) mk, wl @ [iid x])"
      by (simp add: mark_ins_def)
    with Cons.prems have
      "fold (\<lambda>ins s. if is_critical ins then mark_ins (iid ins) s else s) xs
         (insert (iid x) mk, wl @ [iid x]) = (mk', wl')"
      by simp
    from Cons.IH [OF this] True show ?thesis by auto
  next
    case False
    then have "(if is_critical x then mark_ins (iid x) (mk, wl) else (mk, wl)) = (mk, wl)"
      by (simp add: mark_ins_def)
    with Cons.prems have
      "fold (\<lambda>ins s. if is_critical ins then mark_ins (iid ins) s else s) xs (mk, wl) = (mk', wl')"
      by simp
    from Cons.IH [OF this] False show ?thesis by auto
  qed
qed

lemma mark_critical_eq:
  "mark_critical f = (mk, wl) \<Longrightarrow>
   mk = iid ` {x \<in> set (func_instrs f). is_critical x} \<and> set wl = mk"
  using mark_critical_fold [of "func_instrs f" "{}" "[]" mk wl]
  by (simp add: mark_critical_def)

text \<open>What the loop keeps: the work list holds marked instructions, and every marked
  instruction that has left the work list has all its operand instructions marked.\<close>

lemma propagate_closed:
  "set wl \<subseteq> mk \<Longrightarrow> (\<forall>p \<in> mk - set wl. succs m p \<subseteq> mk) \<Longrightarrow>
   mk \<subseteq> propagate m (mk, wl) \<and> (\<forall>p \<in> propagate m (mk, wl). succs m p \<subseteq> propagate m (mk, wl))"
proof (induction m "(mk, wl)" arbitrary: mk wl rule: propagate.induct)
  case (1 m marked)
  then show ?case by simp
next
  case (2 m marked p work_list)
  obtain mk' wl' where step: "fold mark_operand (get_operands m p) (marked, work_list) = (mk', wl')"
    by (cases "fold mark_operand (get_operands m p) (marked, work_list)")
  from mark_operand_fold [OF step]
  have mk': "mk' = marked \<union> succs m p" and wl': "set wl' = set work_list \<union> (succs m p - marked)"
    by (simp_all add: succs_def)
  have sub: "set wl' \<subseteq> mk'"
    using "2.prems"(1) mk' wl' by auto
  have cl: "\<forall>r \<in> mk' - set wl'. succs m r \<subseteq> mk'"
  proof
    fix r assume r: "r \<in> mk' - set wl'"
    show "succs m r \<subseteq> mk'"
    proof (cases "r = p")
      case True
      then show ?thesis using mk' by simp
    next
      case False
      with r mk' wl' have "r \<in> marked - set (p # work_list)" by auto
      with "2.prems"(2) have "succs m r \<subseteq> marked" by blast
      then show ?thesis using mk' by auto
    qed
  qed
  from "2.hyps" [OF step sub cl] mk'
  show ?case by (simp add: step)
qed

lemma propagate_least:
  "mk \<subseteq> L \<Longrightarrow> set wl \<subseteq> L \<Longrightarrow> (\<forall>p \<in> L. succs m p \<subseteq> L) \<Longrightarrow> propagate m (mk, wl) \<subseteq> L"
proof (induction m "(mk, wl)" arbitrary: mk wl rule: propagate.induct)
  case (1 m marked)
  then show ?case by simp
next
  case (2 m marked p work_list)
  obtain mk' wl' where step: "fold mark_operand (get_operands m p) (marked, work_list) = (mk', wl')"
    by (cases "fold mark_operand (get_operands m p) (marked, work_list)")
  from mark_operand_fold [OF step]
  have mk': "mk' = marked \<union> succs m p" and wl': "set wl' = set work_list \<union> (succs m p - marked)"
    by (simp_all add: succs_def)
  from "2.prems" have ps: "succs m p \<subseteq> L" by simp
  have a: "mk' \<subseteq> L" using "2.prems"(1) mk' ps by auto
  have b: "set wl' \<subseteq> L" using "2.prems"(2) wl' ps by auto
  from "2.hyps" [OF step a b "2.prems"(3)] show ?case
    by (simp add: step)
qed

lemma mark_closed: "operand_closed m f (mark m f)"
proof -
  obtain mk wl where mc: "mark_critical f = (mk, wl)"
    by (cases "mark_critical f")
  from mark_critical_eq [OF mc]
  have mk: "mk = iid ` {x \<in> set (func_instrs f). is_critical x}" and wl: "set wl = mk"
    by simp_all
  have "mk \<subseteq> propagate m (mk, wl) \<and>
        (\<forall>p \<in> propagate m (mk, wl). succs m p \<subseteq> propagate m (mk, wl))"
    by (rule propagate_closed) (simp_all add: wl)
  then show ?thesis
    unfolding operand_closed_def mark_def mc using mk by (auto simp: succs_def)
qed

lemma mark_least: "operand_closed m f L \<Longrightarrow> mark m f \<subseteq> L"
proof -
  assume L: "operand_closed m f L"
  obtain mk wl where mc: "mark_critical f = (mk, wl)"
    by (cases "mark_critical f")
  from mark_critical_eq [OF mc]
  have mk: "mk = iid ` {x \<in> set (func_instrs f). is_critical x}" and wl: "set wl = mk"
    by simp_all
  have a: "mk \<subseteq> L" using L mk by (auto simp: operand_closed_def)
  have c: "\<forall>p \<in> L. succs m p \<subseteq> L" using L by (auto simp: operand_closed_def succs_def)
  from propagate_least [OF a _ c, of wl] wl a show ?thesis
    by (simp add: mark_def mc)
qed

lemma live_closed: "operand_closed m f {p. live m f p}"
  by (auto simp: operand_closed_def intro: live.intros)

lemma live_least: "live m f p \<Longrightarrow> operand_closed m f L \<Longrightarrow> p \<in> L"
  by (induction rule: live.induct) (auto simp: operand_closed_def)

lemma mark_live: "(p \<in> mark m f) = live m f p"
  using mark_least [OF live_closed, of m f] live_least [OF _ mark_closed, of m f p]
  by auto

text \<open>
  Claim C2. The set that \<open>mark\<close> returns holds every critical instruction of the function
  and is closed under instruction operands; it is included in every set with these two
  properties; and an instruction is in it exactly when it is critical in the function or
  operand edges reach it from a critical instruction of the function.
\<close>

theorem mark_spec:
  "operand_closed m f (mark m f) \<and>
   (\<forall>L. operand_closed m f L \<longrightarrow> mark m f \<subseteq> L) \<and>
   (\<forall>p. (p \<in> mark m f) = live m f p)"
  using mark_closed mark_least mark_live by blast

theorem mark_spec_witness:
  "operand_closed scenario_module scenario_main {1, 2, 5, 6, 7, 9} \<and>
   live scenario_module scenario_main 1 \<and>
   \<not> live scenario_module scenario_main 3"
proof -
  note spec = mark_spec [of scenario_module scenario_main]
  from spec have "operand_closed scenario_module scenario_main (mark scenario_module scenario_main)"
    by (rule conjunct1)
  then have closed: "operand_closed scenario_module scenario_main {1, 2, 5, 6, 7, 9}"
    by (simp add: scenario_mark)
  from spec have iff: "(p \<in> mark scenario_module scenario_main) = live scenario_module scenario_main p"
    for p by blast
  have "live scenario_module scenario_main 1"
    unfolding iff [symmetric] scenario_mark by simp
  moreover have "\<not> live scenario_module scenario_main 3"
    unfolding iff [symmetric] scenario_mark by simp
  ultimately show ?thesis
    using closed by simp
qed

subsection \<open>No dangling operand after a sweep\<close>

lemma find_unique:
  "distinct (map g xs) \<Longrightarrow> x \<in> set xs \<Longrightarrow> find (\<lambda>y. g y = g x) xs = Some x"
  by (induction xs) (auto simp: rev_image_eqI)

lemma deref_unique:
  "unique_instrs m \<Longrightarrow> i \<in> set (all_instrs m) \<Longrightarrow> deref m (iid i) = Some i"
  by (simp add: unique_instrs_def deref_def find_unique)

lemma func_instrs_subset:
  "f \<in> set (get_functions m) \<Longrightarrow> set (func_instrs f) \<subseteq> set (all_instrs m)"
  by (auto simp: all_instrs_def)

lemma sweep_keeps_marked_operands:
  assumes "unique_instrs m" and "f \<in> set (get_functions m)"
    and ins: "ins \<in> set (func_instrs (fst (sweep (mark m f) f n)))"
    and q: "InstrRef q \<in> set (operands ins)"
  shows "q \<in> mark m f"
proof -
  let ?W = "set (collect_wait_del (mark m f) f)"
  from ins have inf: "ins \<in> set (func_instrs f)" and nw: "iid ins \<notin> ?W"
    by (simp_all add: sweep_eq func_instrs_keep)
  from nw inf have "iid ins \<in> mark m f \<or> is_critical ins"
    by (auto simp: set_collect_wait_del)
  moreover have cl: "operand_closed m f (mark m f)"
    by (rule mark_closed)
  ultimately have marked: "iid ins \<in> mark m f"
    using inf by (auto simp: operand_closed_def)
  have "deref m (iid ins) = Some ins"
    using assms(1,2) inf func_instrs_subset by (blast intro: deref_unique)
  then have "get_operands m (iid ins) = operands ins"
    by (simp add: get_operands_def)
  with cl marked q show ?thesis
    by (auto simp: operand_closed_def)
qed

text \<open>
  Claim C4. In a module whose instructions have distinct identities, after \<open>sweep\<close> has
  run on a function of the module with the marks that \<open>mark\<close> computed for it, no
  instruction that remains in the function has an operand that names an instruction
  which the function held before the sweep and no longer holds.
\<close>

theorem sweep_no_dangling:
  assumes "unique_instrs m" and "f \<in> set (get_functions m)"
  shows "\<forall>ins \<in> set (func_instrs (fst (sweep (mark m f) f n))).
           \<forall>q. InstrRef q \<in> set (operands ins) \<longrightarrow>
             q \<notin> iid ` set (func_instrs f) - iid ` set (func_instrs (fst (sweep (mark m f) f n)))"
proof (intro ballI allI impI)
  fix ins q
  assume ins: "ins \<in> set (func_instrs (fst (sweep (mark m f) f n)))"
    and q: "InstrRef q \<in> set (operands ins)"
  from sweep_keeps_marked_operands [OF assms ins q] have mq: "q \<in> mark m f" .
  then have "q \<notin> set (collect_wait_del (mark m f) f)"
    by (auto simp: set_collect_wait_del)
  then have "q \<in> iid ` set (func_instrs f) \<Longrightarrow>
      q \<in> iid ` set (func_instrs (fst (sweep (mark m f) f n)))"
    by (auto simp: sweep_eq func_instrs_keep)
  then show "q \<notin> iid ` set (func_instrs f) - iid ` set (func_instrs (fst (sweep (mark m f) f n)))"
    by blast
qed

lemma scenario_unique: "unique_instrs scenario_module"
  by code_simp

lemma scenario_main_in: "scenario_main \<in> set (get_functions scenario_module)"
  by (simp add: scenario_module_def)

lemma scenario_swept_instrs:
  "func_instrs (fst (sweep (mark scenario_module scenario_main) scenario_main 0)) =
     filter (\<lambda>i. iid i \<in> {1, 2, 5, 6, 7, 9}) (func_instrs scenario_main)"
  by code_simp

theorem sweep_no_dangling_witness:
  "unique_instrs scenario_module \<and> scenario_main \<in> set (get_functions scenario_module) \<and>
   \<lparr>iid = 2, kind = Arith, operands = [InstrRef 1, InstrRef 1]\<rparr>
     \<in> set (func_instrs (fst (sweep (mark scenario_module scenario_main) scenario_main 0))) \<and>
   1 \<in> iid ` set (func_instrs (fst (sweep (mark scenario_module scenario_main) scenario_main 0))) \<and>
   3 \<in> iid ` set (func_instrs scenario_main) \<and>
   3 \<notin> iid ` set (func_instrs (fst (sweep (mark scenario_module scenario_main) scenario_main 0)))"
proof -
  let ?f' = "fst (sweep (mark scenario_module scenario_main) scenario_main 0)"
  let ?i = "\<lparr>iid = 2, kind = Arith, operands = [InstrRef 1, InstrRef 1]\<rparr>"
  have mem: "?i \<in> set (func_instrs ?f')"
    unfolding scenario_swept_instrs by (simp add: func_instrs_def scenario_main_def)
  have before: "1 \<in> iid ` set (func_instrs scenario_main)" "3 \<in> iid ` set (func_instrs scenario_main)"
    by (simp_all add: func_instrs_def scenario_main_def)
  have gone: "3 \<notin> iid ` set (func_instrs ?f')"
    unfolding scenario_swept_instrs by (simp add: func_instrs_def scenario_main_def)
  from sweep_no_dangling [OF scenario_unique scenario_main_in, of 0] mem
  have "1 \<notin> iid ` set (func_instrs scenario_main) - iid ` set (func_instrs ?f')"
    by fastforce
  with before have "1 \<in> iid ` set (func_instrs ?f')"
    by blast
  with scenario_unique scenario_main_in mem before gone show ?thesis
    by blast
qed

subsection \<open>One visit of a function\<close>

lemma set_function_twice: "set_function k g (set_function k f m) = set_function k g m"
  by (simp add: set_function_def)

lemma run_func_eq:
  "run_func k ((m, n), c) =
     ((set_function k (visited_func m k) m, n + length (visit_wait_del m k)),
      (c \<or> snd (clear_basic_blocks (get_functions m ! k))) \<or> visit_wait_del m k \<noteq> [])"
  by (simp add: run_func_def visited_func_def visit_wait_del_def pruned_func_def Let_def
      sweep_eq set_function_twice split: prod.splits)

lemma pruned_func_eq:
  "pruned_func f = f\<lparr>basic_blocks := filter (\<lambda>bb. \<not> unreachable_bb f bb) (basic_blocks f)\<rparr>"
  by (simp add: pruned_func_def clear_basic_blocks_eq)

lemma length_concat_filter_le:
  "length (concat (map g (filter P xs))) \<le> length (concat (map g xs))"
  by (induction xs) auto

lemma pruned_func_counts:
  "block_count (pruned_func f) \<le> block_count f"
  "instr_count (pruned_func f) \<le> instr_count f"
  "snd (clear_basic_blocks f) = (block_count (pruned_func f) < block_count f)"
  by (simp_all add: pruned_func_eq block_count_def instr_count_def func_instrs_def
      length_concat_filter_le clear_basic_blocks_eq length_filter_less_iff)

lemma pruned_func_unchanged: "\<not> snd (clear_basic_blocks f) \<Longrightarrow> pruned_func f = f"
proof -
  assume "\<not> snd (clear_basic_blocks f)"
  then have "filter (\<lambda>bb. \<not> unreachable_bb f bb) (basic_blocks f) = basic_blocks f"
    by (simp add: clear_basic_blocks_eq)
  then show ?thesis by (simp add: pruned_func_eq)
qed

lemma keep_instrs_counts:
  "block_count (keep_instrs P f) = block_count f"
  "instr_count (keep_instrs P f) \<le> instr_count f"
  by (simp_all add: block_count_def instr_count_def func_instrs_keep) (simp add: keep_instrs_def)

lemma wait_del_nonempty:
  "(collect_wait_del marked f \<noteq> []) =
     (instr_count (keep_instrs (\<lambda>i. iid i \<notin> set (collect_wait_del marked f)) f) < instr_count f)"
proof -
  have "(collect_wait_del marked f \<noteq> []) = (\<exists>i \<in> set (func_instrs f). iid i \<in> set (collect_wait_del marked f))"
    using set_collect_wait_del [of marked f] by (auto simp flip: set_empty)
  then show ?thesis
    by (simp add: instr_count_def func_instrs_keep length_filter_less_iff)
qed

lemma visited_func_counts:
  "block_count (visited_func m k) \<le> block_count (get_functions m ! k)"
  "instr_count (visited_func m k) \<le> instr_count (get_functions m ! k)"
  using pruned_func_counts(1,2) [of "get_functions m ! k"]
    keep_instrs_counts [of "\<lambda>i. iid i \<notin> set (visit_wait_del m k)" "pruned_func (get_functions m ! k)"]
  by (simp_all add: visited_func_def)

lemma visited_func_changed:
  "(snd (clear_basic_blocks (get_functions m ! k)) \<or> visit_wait_del m k \<noteq> []) =
     (instr_count (visited_func m k) + block_count (visited_func m k)
        < instr_count (get_functions m ! k) + block_count (get_functions m ! k))"
proof -
  let ?f = "get_functions m ! k"
  let ?W = "visit_wait_del m k"
  have w: "(?W \<noteq> []) = (instr_count (visited_func m k) < instr_count (pruned_func ?f))"
    unfolding visited_func_def visit_wait_del_def Let_def by (rule wait_del_nonempty)
  have b: "block_count (visited_func m k) = block_count (pruned_func ?f)"
    by (simp add: visited_func_def keep_instrs_counts)
  have i: "instr_count (visited_func m k) \<le> instr_count (pruned_func ?f)"
    by (simp add: visited_func_def keep_instrs_counts)
  show ?thesis
  proof (cases "snd (clear_basic_blocks ?f)")
    case True
    then show ?thesis
      using pruned_func_counts [of ?f] b i by auto
  next
    case False
    then have "pruned_func ?f = ?f" by (rule pruned_func_unchanged)
    with False w b show ?thesis by auto
  qed
qed

lemma visited_func_unchanged:
  assumes "\<not> (snd (clear_basic_blocks (get_functions m ! k)) \<or> visit_wait_del m k \<noteq> [])"
  shows "visited_func m k = get_functions m ! k"
proof -
  from assms have "pruned_func (get_functions m ! k) = get_functions m ! k"
    by (simp add: pruned_func_unchanged)
  moreover from assms have "visit_wait_del m k = []" by simp
  ultimately show ?thesis
    by (simp add: visited_func_def keep_instrs_True)
qed

subsection \<open>One pass over the functions\<close>

lemma shrinks_refl: "shrinks m m"
  by (simp add: shrinks_def)

lemma shrinks_trans: "shrinks a b \<Longrightarrow> shrinks b c \<Longrightarrow> shrinks a c"
  unfolding shrinks_def by (auto intro: order_trans)

lemma sum_list_update_add:
  "k < length xs \<Longrightarrow> sum_list (xs[k := y]) + xs ! k = sum_list xs + (y :: nat)"
  by (induction xs arbitrary: k) (auto split: nat.splits)

lemma module_size_eq: "module_size m = sum_list (map func_size (get_functions m))"
  by (simp add: module_size_def)

lemma module_size_set_function:
  assumes "k < length (get_functions m)"
  shows "module_size (set_function k g m) + func_size (get_functions m ! k) =
         module_size m + func_size g"
  using assms sum_list_update_add [of k "map func_size (get_functions m)" "func_size g"]
  by (simp add: module_size_eq set_function_def map_update)

lemma set_function_same: "set_function k (get_functions m ! k) m = m"
  by (simp add: set_function_def)

lemma shrinks_set_function:
  assumes "k < length (get_functions m)"
    and "instr_count g \<le> instr_count (get_functions m ! k)"
    and "block_count g \<le> block_count (get_functions m ! k)"
  shows "shrinks m (set_function k g m)"
  using assms by (auto simp: shrinks_def set_function_def nth_list_update)

lemma run_func_step:
  assumes k: "k < length (get_functions m)"
    and run: "run_func k ((m, n), c) = ((m', n'), c')"
  shows "shrinks m m' \<and> module_size m' \<le> module_size m \<and>
         c' = (c \<or> module_size m' < module_size m) \<and>
         (module_size m' = module_size m \<longrightarrow> m' = m \<and> n' = n)"
proof -
  let ?f = "get_functions m ! k"
  let ?g = "visited_func m k"
  let ?ch = "snd (clear_basic_blocks ?f) \<or> visit_wait_del m k \<noteq> []"
  from run have m': "m' = set_function k ?g m" and n': "n' = n + length (visit_wait_del m k)"
    and c': "c' = (c \<or> ?ch)"
    by (simp_all add: run_func_eq)
  have sz: "module_size m' + func_size ?f = module_size m + func_size ?g"
    unfolding m' by (rule module_size_set_function [OF k])
  have ch: "?ch = (func_size ?g < func_size ?f)"
    unfolding func_size_def by (rule visited_func_changed)
  have le: "func_size ?g \<le> func_size ?f"
    using visited_func_counts [of m k] by (simp add: func_size_def)
  have "shrinks m m'"
    unfolding m' using k visited_func_counts [of m k] by (intro shrinks_set_function)
  moreover have "module_size m' \<le> module_size m"
    using sz le by linarith
  moreover have "c' = (c \<or> module_size m' < module_size m)"
    using sz ch c' by auto
  moreover have "m' = m \<and> n' = n" if "module_size m' = module_size m"
  proof -
    from that sz ch have nch: "\<not> ?ch" by simp
    then have "?g = ?f" by (rule visited_func_unchanged)
    with nch m' n' show ?thesis by (simp add: set_function_same)
  qed
  ultimately show ?thesis by blast
qed

lemma run_funcs_steps:
  assumes "\<forall>k \<in> set ks. k < length (get_functions m)"
    and "fold run_func ks ((m, n), c) = ((m', n'), c')"
  shows "shrinks m m' \<and> module_size m' \<le> module_size m \<and>
         c' = (c \<or> module_size m' < module_size m) \<and>
         (module_size m' = module_size m \<longrightarrow> m' = m \<and> n' = n)"
  using assms
proof (induction ks arbitrary: m n c)
  case Nil
  then show ?case by (simp add: shrinks_refl)
next
  case (Cons k ks)
  obtain m1 n1 c1 where first: "run_func k ((m, n), c) = ((m1, n1), c1)"
    by (metis surj_pair)
  from Cons.prems(1) have k: "k < length (get_functions m)" by simp
  note s1 = run_func_step [OF k first]
  from s1 have len: "length (get_functions m1) = length (get_functions m)"
    by (simp add: shrinks_def)
  from Cons.prems(1) len have ks: "\<forall>k \<in> set ks. k < length (get_functions m1)"
    by simp
  from Cons.prems(2) first have rest: "fold run_func ks ((m1, n1), c1) = ((m', n'), c')"
    by simp
  note s2 = Cons.IH [OF ks rest]
  from s1 s2 have "shrinks m m'" by (blast intro: shrinks_trans)
  moreover from s1 s2 have "module_size m' \<le> module_size m" by linarith
  moreover from s1 s2 have "c' = (c \<or> module_size m' < module_size m)" by auto
  moreover have "m' = m \<and> n' = n" if "module_size m' = module_size m"
  proof -
    from that s1 s2 have "module_size m1 = module_size m" and "module_size m' = module_size m1"
      by linarith+
    with s1 s2 show ?thesis by simp
  qed
  ultimately show ?case by blast
qed

lemma run_pass_step:
  assumes "run_pass (m, n) = ((m', n'), c)"
  shows "shrinks m m' \<and> module_size m' \<le> module_size m \<and>
         c = (module_size m' < module_size m) \<and>
         (\<not> c \<longrightarrow> m' = m \<and> n' = n)"
proof -
  have "\<forall>k \<in> set [0..<length (get_functions m)]. k < length (get_functions m)"
    by simp
  from run_funcs_steps [OF this, of n False m' n' c] assms show ?thesis
    by (auto simp: run_pass_def)
qed

subsection \<open>The driver loop\<close>

lemma do_while_unfold:
  "body s = (s', c) \<Longrightarrow> do_while body s = (if c then do_while body s' else Some s')"
  by (subst do_while.simps) simp

lemma do_while_fuel_total:
  assumes dec: "\<And>s s'. body s = (s', True) \<Longrightarrow> \<mu> s' < (\<mu> s :: nat)"
  shows "\<mu> s < k \<Longrightarrow>
         do_while_fuel k body s = do_while body s \<and> (\<exists>t. do_while body s = Some t)"
proof (induction k arbitrary: s)
  case 0
  then show ?case by simp
next
  case (Suc k)
  obtain s' c where b: "body s = (s', c)" by force
  then have unf: "do_while body s = (if c then do_while body s' else Some s')"
    by (rule do_while_unfold)
  show ?case
  proof (cases c)
    case True
    with dec b have "\<mu> s' < \<mu> s" by simp
    with Suc.prems have "\<mu> s' < k" by simp
    from Suc.IH [OF this] b True show ?thesis
      by (simp add: unf)
  next
    case False
    with b show ?thesis
      by (simp add: unf)
  qed
qed

lemma do_while_invariant:
  assumes dec: "\<And>s s'. body s = (s', True) \<Longrightarrow> \<mu> s' < (\<mu> s :: nat)"
    and step: "\<And>s s' c. I s \<Longrightarrow> body s = (s', c) \<Longrightarrow> I s'"
  shows "do_while body s = Some t \<Longrightarrow> I s \<Longrightarrow> I t \<and> (\<exists>u. I u \<and> body u = (t, False))"
proof (induction "\<mu> s" arbitrary: s rule: less_induct)
  case less
  obtain s' c where b: "body s = (s', c)" by force
  then have unf: "do_while body s = (if c then do_while body s' else Some s')"
    by (rule do_while_unfold)
  from step [OF less.prems(2) b] have I': "I s'" .
  show ?case
  proof (cases c)
    case True
    with dec b have lt: "\<mu> s' < \<mu> s" by simp
    from less.prems(1) unf True have run': "do_while body s' = Some t" by simp
    show ?thesis by (rule less.hyps [OF lt run' I'])
  next
    case False
    with less.prems(1) unf have t: "t = s'" by simp
    from b False t have "body s = (t, False)" by simp
    with less.prems(2) have "\<exists>u. I u \<and> body u = (t, False)" by (intro exI conjI)
    with I' t show ?thesis by simp
  qed
qed

lemma run_pass_decreases: "run_pass s = (s', True) \<Longrightarrow> module_size (fst s') < module_size (fst s)"
  using run_pass_step [of "fst s" "snd s" "fst s'" "snd s'" True] by simp

lemma run_pass_total:
  "do_while_fuel (module_size m + 1) run_pass (m, n) = do_while run_pass (m, n) \<and>
   (\<exists>t. do_while run_pass (m, n) = Some t)"
  by (rule do_while_fuel_total [where \<mu> = "\<lambda>s. module_size (fst s)"])
    (simp_all add: run_pass_decreases)

lemma run_total: "\<exists>r. run m n = Some r"
proof -
  from run_pass_total [of m n] obtain t where "do_while run_pass (m, n) = Some t" by blast
  then show ?thesis
    by (cases t) (simp add: run_def split: prod.splits)
qed

lemma run_pass_stable: "run_pass s = (s', False) \<Longrightarrow> s' = s"
  using run_pass_step [of "fst s" "snd s" "fst s'" "snd s'" False]
  by (simp add: prod_eq_iff)

lemma run_pass_fixed:
  assumes "do_while run_pass s = Some t"
  shows "run_pass t = (t, False)"
proof -
  from do_while_invariant [where \<mu> = "\<lambda>s. module_size (fst s)" and I = "\<lambda>s. True", OF _ _ assms]
  obtain u where u: "run_pass u = (t, False)"
    using run_pass_decreases by blast
  from run_pass_stable [OF u] u show ?thesis by simp
qed

lemma run_funcs_module_indep:
  "fst (fst (fold run_func ks ((m, n), c))) = fst (fst (fold run_func ks ((m, n'), c')))"
proof (induction ks arbitrary: m n c n' c')
  case Nil
  show ?case by simp
next
  case (Cons k ks)
  show ?case
    by (simp add: run_func_eq) (rule Cons.IH)
qed

lemma run_pass_fixed_any_count:
  assumes "run_pass (m, n) = ((m, n), False)"
  shows "run_pass (m, n') = ((m, n'), False)"
proof -
  obtain m2 n2 c2 where r: "run_pass (m, n') = ((m2, n2), c2)"
    by (metis surj_pair)
  have "fst (fst (run_pass (m, n'))) = fst (fst (run_pass (m, n)))"
    unfolding run_pass_def fst_conv by (rule run_funcs_module_indep)
  with r assms have "m2 = m" by simp
  with run_pass_step [OF r] r show ?thesis by simp
qed

lemma run_eq:
  "do_while run_pass (m, n) = Some (m', n') \<Longrightarrow>
   run m n = Some \<lparr>result_module = m', erased = n', unused_report = snd (sweep_globally m')\<rparr>"
  by (simp add: run_def sweep_globally_def Let_def)

text \<open>
  Claim C5. When \<open>run\<close> has returned, a second \<open>run\<close> on the module it produced, with
  any value of the counter, returns the same module and leaves the counter as it is: it
  deletes no instruction and no block.
\<close>

theorem run_idempotent:
  assumes "run m n = Some r"
  shows "run (result_module r) n' = Some (r\<lparr>erased := n'\<rparr>)"
proof -
  from assms have loop: "do_while run_pass (m, n) = Some (result_module r, erased r)"
    and rep: "unused_report r = snd (sweep_globally (result_module r))"
    by (simp_all add: run_Some)
  from run_pass_fixed [OF loop] have "run_pass (result_module r, n') = ((result_module r, n'), False)"
    by (rule run_pass_fixed_any_count)
  then have "do_while run_pass (result_module r, n') =
      (if False then do_while run_pass (result_module r, n') else Some (result_module r, n'))"
    by (rule do_while_unfold)
  then have "do_while run_pass (result_module r, n') = Some (result_module r, n')"
    by simp
  then have "run (result_module r) n' =
      Some \<lparr>result_module = result_module r, erased = n',
            unused_report = snd (sweep_globally (result_module r))\<rparr>"
    by (rule run_eq)
  also have "\<lparr>result_module = result_module r, erased = n',
      unused_report = snd (sweep_globally (result_module r))\<rparr> = r\<lparr>erased := n'\<rparr>"
    unfolding rep [symmetric] by (cases r) simp
  finally show ?thesis .
qed

theorem run_idempotent_witness:
  "run scenario_module 0 =
     Some \<lparr>result_module = scenario_result, erased = 3, unused_report = Some (1, 1)\<rparr> \<and>
   run scenario_result 3 =
     Some \<lparr>result_module = scenario_result, erased = 3, unused_report = Some (1, 1)\<rparr> \<and>
   run scenario_result 0 =
     Some \<lparr>result_module = scenario_result, erased = 0, unused_report = Some (1, 1)\<rparr>"
  using run_idempotent [OF scenario_run, of 3] run_idempotent [OF scenario_run, of 0] scenario_run
  by simp

text \<open>
  Claim C6. The driver loop returns, and it does so within as many iterations as the
  module has instructions and blocks, plus one. An iteration that sets \<open>changed\<close> leaves
  a module with fewer instructions and blocks in total; an iteration that does not set it
  leaves the module and the counter as they are and is the last one. No iteration changes
  the number of functions or gives a function more instructions or more blocks.
\<close>

theorem run_terminates:
  "(\<exists>r. run m n = Some r) \<and>
   (\<exists>t. do_while run_pass (m, n) = Some t) \<and>
   do_while_fuel (module_size m + 1) run_pass (m, n) = do_while run_pass (m, n) \<and>
   (\<forall>m' n' c. run_pass (m, n) = ((m', n'), c) \<longrightarrow>
      (c \<longrightarrow> module_size m' < module_size m) \<and>
      (\<not> c \<longrightarrow> m' = m \<and> n' = n \<and> do_while run_pass (m, n) = Some (m, n)) \<and>
      length (get_functions m') = length (get_functions m) \<and>
      (\<forall>k < length (get_functions m).
         instr_count (get_functions m' ! k) \<le> instr_count (get_functions m ! k) \<and>
         block_count (get_functions m' ! k) \<le> block_count (get_functions m ! k)))"
proof -
  have iter: "(c \<longrightarrow> module_size m' < module_size m) \<and>
      (\<not> c \<longrightarrow> m' = m \<and> n' = n \<and> do_while run_pass (m, n) = Some (m, n)) \<and>
      length (get_functions m') = length (get_functions m) \<and>
      (\<forall>k < length (get_functions m).
         instr_count (get_functions m' ! k) \<le> instr_count (get_functions m ! k) \<and>
         block_count (get_functions m' ! k) \<le> block_count (get_functions m ! k))"
    if rp: "run_pass (m, n) = ((m', n'), c)" for m' n' c
  proof -
    note st = run_pass_step [OF rp]
    have last: "do_while run_pass (m, n) = Some (m, n)" if "\<not> c"
    proof -
      from that st rp have "run_pass (m, n) = ((m, n), False)" by simp
      then have "do_while run_pass (m, n) =
          (if False then do_while run_pass (m, n) else Some (m, n))"
        by (rule do_while_unfold)
      then show ?thesis by simp
    qed
    from st have "shrinks m m'" by simp
    then have "length (get_functions m') = length (get_functions m) \<and>
      (\<forall>k < length (get_functions m).
         instr_count (get_functions m' ! k) \<le> instr_count (get_functions m ! k) \<and>
         block_count (get_functions m' ! k) \<le> block_count (get_functions m ! k))"
      by (simp add: shrinks_def)
    with st last show ?thesis by simp
  qed
  from run_total [of m n] run_pass_total [of m n] iter show ?thesis
    by simp
qed

lemma scenario_first_pass: "snd (run_pass (scenario_module, 0))"
  by code_simp

theorem run_terminates_witness:
  "do_while_fuel (module_size scenario_module + 1) run_pass (scenario_module, 0) =
     Some (scenario_result, 3) \<and>
   snd (run_pass (scenario_module, 0)) \<and>
   module_size (fst (fst (run_pass (scenario_module, 0)))) < module_size scenario_module"
proof -
  note spec = run_terminates [of scenario_module 0]
  have "do_while run_pass (scenario_module, 0) = Some (scenario_result, 3)"
    using run_Some [OF scenario_run] by simp
  with spec have fuel: "do_while_fuel (module_size scenario_module + 1) run_pass (scenario_module, 0) =
     Some (scenario_result, 3)"
    by simp
  obtain m' n' c where rp: "run_pass (scenario_module, 0) = ((m', n'), c)"
    by (metis surj_pair)
  with scenario_first_pass have c: c by simp
  from spec rp have "c \<longrightarrow> module_size m' < module_size scenario_module"
    by blast
  with c rp fuel show ?thesis by simp
qed

subsection \<open>Instruction identities stay distinct\<close>











subsection \<open>Critical instructions stay in the blocks that stay\<close>
















subsection \<open>What the counter counts\<close>














end
